theory Spec2Isabelle
  imports Main "HOL-Library.Sublist"
begin

section \<open>Runes, panics and checked access\<close>

text \<open>
  The sentence splitter of package \<open>util\<close> works on \<open>[]rune(text)\<close>: a slice of Unicode
  code points. A rune (an \<open>int32\<close>) is modelled by its code point, an integer. Go's \<open>int\<close> is taken to be 64 bits
  wide; indices and lengths are HOL integers and the two places where the source's
  arithmetic can leave the 64-bit range (\<open>maxLen * 2\<close> and \<open>startPos + maxLen\<close>) wrap
  explicitly. Every run-time panic of the source is a value of type \<open>panic\<close>.
\<close>

type_synonym rune = int

datatype panic = IndexOutOfRange | SliceBoundsOutOfRange | NegativeGrowCount

definition rune_at :: "rune list \<Rightarrow> int \<Rightarrow> panic + rune" where
  \<comment> \<open>\<open>text[i]\<close>\<close>
  "rune_at text i =
     (if 0 \<le> i \<and> i < int (length text) then Inr (text ! nat i) else Inl IndexOutOfRange)"

definition slice :: "rune list \<Rightarrow> int \<Rightarrow> int \<Rightarrow> panic + rune list" where
  \<comment> \<open>\<open>text[lo:hi]\<close> of a slice whose capacity is its length\<close>
  "slice text lo hi =
     (if 0 \<le> lo \<and> lo \<le> hi \<and> hi \<le> int (length text)
      then Inr (take (nat (hi - lo)) (drop (nat lo) text))
      else Inl SliceBoundsOutOfRange)"

definition wrap64 :: "int \<Rightarrow> int" where
  \<comment> \<open>the value of a 64-bit signed result after wrap-around\<close>
  "wrap64 x = (x + 2 ^ 63) mod 2 ^ 64 - 2 ^ 63"

definition runes :: "string \<Rightarrow> rune list" where
  \<comment> \<open>\<open>[]rune(s)\<close> for an ASCII literal \<open>s\<close>\<close>
  "runes s = map of_char s"

section \<open>Punctuation tables\<close>

definition punctuationMap :: "rune \<rightharpoonup> bool" where
  "punctuationMap = map_of
     [(12290, True), (65311, True), (65281, True), (65307, True), (65306, True),
      (10, True), (46, True), (63, True), (33, True), (59, True), (58, True)]"

definition firstPunctuation :: "rune \<rightharpoonup> bool" where
  "firstPunctuation = map_of
     [(65292, True), (44, True),
      (12290, True), (65311, True), (65281, True), (65307, True), (65306, True),
      (10, True), (46, True), (63, True), (33, True), (59, True), (58, True)]"

definition map_get :: "(rune \<rightharpoonup> bool) \<Rightarrow> rune \<Rightarrow> bool" where
  \<comment> \<open>\<open>m[r]\<close> on a \<open>map[rune]bool\<close>: a missing key reads as \<open>false\<close>\<close>
  "map_get m r = (case m r of Some b \<Rightarrow> b | None \<Rightarrow> False)"

definition sentenceEndPunctuation :: "rune list" where
  "sentenceEndPunctuation = [46, 12290, 33, 65281, 63, 65311, 10]"

definition sentencePausePunctuation :: "rune list" where
  "sentencePausePunctuation = [44, 65292, 59, 65307, 58, 65306]"

fun range_eq :: "rune \<Rightarrow> rune list \<Rightarrow> bool" where
  \<comment> \<open>\<open>for _, p := range ps { if r == p { return true } }; return false\<close>\<close>
  "range_eq r [] = False"
| "range_eq r (p # ps) = (if r = p then True else range_eq r ps)"

definition IsSentenceEndPunctuation :: "rune \<Rightarrow> bool" where
  "IsSentenceEndPunctuation r = range_eq r sentenceEndPunctuation"

definition IsSentencePausePunctuation :: "rune \<Rightarrow> bool" where
  "IsSentencePausePunctuation r = range_eq r sentencePausePunctuation"

fun ContainsSentenceSeparator :: "rune list \<Rightarrow> bool \<Rightarrow> bool" where
  "ContainsSentenceSeparator [] isFirst = False"
| "ContainsSentenceSeparator (r # rs) isFirst =
     (if isFirst
      then (if map_get firstPunctuation r then True else ContainsSentenceSeparator rs isFirst)
      else (if map_get punctuationMap r then True else ContainsSentenceSeparator rs isFirst))"

section \<open>Eager extraction\<close>





section \<open>The ordinal-marker test\<close>

function skipBlanksBack :: "rune list \<Rightarrow> int \<Rightarrow> panic + int" where
  \<comment> \<open>\<open>for start >= 0 && (text[start] == ' ' || text[start] == '\t') { start-- }\<close>\<close>
  "skipBlanksBack text start =
     (if start \<ge> 0 then
        (case rune_at text start of
           Inl e \<Rightarrow> Inl e
         | Inr c \<Rightarrow> if c = 32 \<or> c = 9 then skipBlanksBack text (start - 1) else Inr start)
      else Inr start)"
  by pat_completeness auto
termination
  by (relation "measure (\<lambda>(text, start). nat (start + 1))") auto

function countDigitsBack :: "rune list \<Rightarrow> int \<Rightarrow> int \<Rightarrow> bool \<Rightarrow> panic + (int \<times> bool) option" where
  \<comment> \<open>the digit loop of \<open>isNumberPrefix\<close>; \<open>None\<close> is its \<open>return false\<close> at a fourth digit,
      otherwise it yields \<open>start\<close> and \<open>foundDigit\<close>\<close>
  "countDigitsBack text start digitCount foundDigit =
     (if start \<ge> 0 then
        (case rune_at text start of
           Inl e \<Rightarrow> Inl e
         | Inr c \<Rightarrow>
             if 48 \<le> c \<and> c \<le> 57 then
               (if digitCount + 1 > 3 then Inr None
                else countDigitsBack text (start - 1) (digitCount + 1) True)
             else Inr (Some (start, foundDigit)))
      else Inr (Some (start, foundDigit)))"
  by pat_completeness auto
termination
  by (relation "measure (\<lambda>(text, start, digitCount, foundDigit). nat (start + 1))") auto

definition isNumberPrefix :: "rune list \<Rightarrow> int \<Rightarrow> panic + bool" where
  "isNumberPrefix text pos =
     (if pos \<le> 0 then Inr False
      else
        (case rune_at text pos of
           Inl e \<Rightarrow> Inl e
         | Inr p \<Rightarrow>
             if p \<noteq> 46 then Inr False
             else
               (case skipBlanksBack text (pos - 1) of
                  Inl e \<Rightarrow> Inl e
                | Inr start \<Rightarrow>
                    (case countDigitsBack text start 0 False of
                       Inl e \<Rightarrow> Inl e
                     | Inr None \<Rightarrow> Inr False
                     | Inr (Some (start', foundDigit)) \<Rightarrow>
                         if start' \<ge> 0 then
                           (case rune_at text start' of
                              Inl e \<Rightarrow> Inl e
                            | Inr c \<Rightarrow>
                                if c \<noteq> 32 \<and> c \<noteq> 9 \<and> c \<noteq> 10 then Inr False
                                else Inr foundDigit)
                         else Inr foundDigit))))"

section \<open>Trimming and boundary scans\<close>

function trimFront :: "rune list \<Rightarrow> int \<Rightarrow> int \<Rightarrow> panic + int" where
  \<comment> \<open>\<open>for start <= end && (text[start] == ' ' || ... '\t' || ... '\n') { start++ }\<close>\<close>
  "trimFront text start end =
     (if start \<le> end then
        (case rune_at text start of
           Inl e \<Rightarrow> Inl e
         | Inr c \<Rightarrow> if c = 32 \<or> c = 9 \<or> c = 10 then trimFront text (start + 1) end
                    else Inr start)
      else Inr start)"
  by pat_completeness auto
termination
  by (relation "measure (\<lambda>(text, start, end). nat (end + 1 - start))") auto

function trimBack :: "rune list \<Rightarrow> int \<Rightarrow> int \<Rightarrow> panic + int" where
  \<comment> \<open>\<open>for end >= start && (text[end] == ' ' || ... '\t' || ... '\n') { end-- }\<close>\<close>
  "trimBack text start end =
     (if end \<ge> start then
        (case rune_at text end of
           Inl e \<Rightarrow> Inl e
         | Inr c \<Rightarrow> if c = 32 \<or> c = 9 \<or> c = 10 then trimBack text start (end - 1)
                    else Inr end)
      else Inr end)"
  by pat_completeness auto
termination
  by (relation "measure (\<lambda>(text, start, end). nat (end + 1 - start))") auto

definition trimSpaceRunes :: "rune list \<Rightarrow> panic + rune list" where
  \<comment> \<open>the \<open>nil\<close> result is the empty list\<close>
  "trimSpaceRunes text =
     (case trimFront text 0 (int (length text) - 1) of
        Inl e \<Rightarrow> Inl e
      | Inr start \<Rightarrow>
          (case trimBack text start (int (length text) - 1) of
             Inl e \<Rightarrow> Inl e
           | Inr end \<Rightarrow> if start > end then Inr [] else slice text start (end + 1)))"

function findLastPunctuation_from :: "rune list \<Rightarrow> (rune \<rightharpoonup> bool) \<Rightarrow> int \<Rightarrow> panic + int" where
  \<comment> \<open>the loop of \<open>findLastPunctuation\<close>, at index \<open>i\<close>\<close>
  "findLastPunctuation_from text separatorMap i =
     (if i \<ge> 0 then
        (case rune_at text i of
           Inl e \<Rightarrow> Inl e
         | Inr c \<Rightarrow>
             if map_get separatorMap c then
               (if c = 46 then
                  (case isNumberPrefix text i of
                     Inl e \<Rightarrow> Inl e
                   | Inr ordinal \<Rightarrow>
                       if ordinal then findLastPunctuation_from text separatorMap (i - 1)
                       else Inr i)
                else Inr i)
             else findLastPunctuation_from text separatorMap (i - 1))
      else Inr (- 1))"
  by pat_completeness auto
termination
  by (relation "measure (\<lambda>(text, separatorMap, i). nat (i + 1))") auto

definition findLastPunctuation :: "rune list \<Rightarrow> (rune \<rightharpoonup> bool) \<Rightarrow> panic + int" where
  "findLastPunctuation text separatorMap =
     findLastPunctuation_from text separatorMap (int (length text) - 1)"

function skipBlanksFwd :: "rune list \<Rightarrow> int \<Rightarrow> int \<Rightarrow> panic + int" where
  \<comment> \<open>\<open>for nextPos < endPos && (text[nextPos] == ' ' || text[nextPos] == '\t') { nextPos++ }\<close>\<close>
  "skipBlanksFwd text endPos nextPos =
     (if nextPos < endPos then
        (case rune_at text nextPos of
           Inl e \<Rightarrow> Inl e
         | Inr c \<Rightarrow> if c = 32 \<or> c = 9 then skipBlanksFwd text endPos (nextPos + 1)
                    else Inr nextPos)
      else Inr nextPos)"
  by pat_completeness auto
termination
  by (relation "measure (\<lambda>(text, endPos, nextPos). nat (endPos - nextPos))") auto

function windowScan :: "rune list \<Rightarrow> int \<Rightarrow> (rune \<rightharpoonup> bool) \<Rightarrow> int \<Rightarrow> panic + int option" where
  \<comment> \<open>the first loop of \<open>findNextSplitPoint\<close>, at index \<open>i\<close>; \<open>None\<close> when it runs to \<open>endPos\<close>\<close>
  "windowScan text endPos separatorMap i =
     (if i < endPos then
        (case rune_at text i of
           Inl e \<Rightarrow> Inl e
         | Inr c \<Rightarrow>
             if c = 10 then
               (case skipBlanksFwd text endPos (i + 1) of
                  Inl e \<Rightarrow> Inl e
                | Inr nextPos \<Rightarrow>
                    if nextPos < endPos - 2 then
                      (case rune_at text nextPos of
                         Inl e \<Rightarrow> Inl e
                       | Inr d \<Rightarrow>
                           if 48 \<le> d \<and> d \<le> 57 then Inr (Some i)
                           else windowScan text endPos separatorMap (i + 1))
                    else windowScan text endPos separatorMap (i + 1))
             else if map_get separatorMap c then Inr (Some i)
             else windowScan text endPos separatorMap (i + 1))
      else Inr None)"
  by pat_completeness auto
termination
  by (relation "measure (\<lambda>(text, endPos, separatorMap, i). nat (endPos - i))") auto

function fallbackScan :: "rune list \<Rightarrow> (rune \<rightharpoonup> bool) \<Rightarrow> int \<Rightarrow> panic + int" where
  \<comment> \<open>the second loop of \<open>findNextSplitPoint\<close>, at index \<open>i\<close>\<close>
  "fallbackScan text separatorMap i =
     (if i < int (length text) then
        (case rune_at text i of
           Inl e \<Rightarrow> Inl e
         | Inr c \<Rightarrow> if c = 10 \<or> map_get separatorMap c then Inr i
                    else fallbackScan text separatorMap (i + 1))
      else Inr (- 1))"
  by pat_completeness auto
termination
  by (relation "measure (\<lambda>(text, separatorMap, i). nat (int (length text) - i))") auto

definition window_end :: "rune list \<Rightarrow> int \<Rightarrow> int \<Rightarrow> int" where
  \<comment> \<open>\<open>endPos := startPos + maxLen; if endPos > len(text) { endPos = len(text) }\<close>\<close>
  "window_end text startPos maxLen =
     (let endPos = wrap64 (startPos + maxLen) in
      if endPos > int (length text) then int (length text) else endPos)"

definition findNextSplitPoint :: "rune list \<Rightarrow> int \<Rightarrow> int \<Rightarrow> (rune \<rightharpoonup> bool) \<Rightarrow> panic + int" where
  "findNextSplitPoint text startPos maxLen separatorMap =
     (let endPos = window_end text startPos maxLen in
      (case windowScan text endPos separatorMap startPos of
         Inl e \<Rightarrow> Inl e
       | Inr (Some i) \<Rightarrow> Inr i
       | Inr None \<Rightarrow>
           if endPos < int (length text) then fallbackScan text separatorMap endPos
           else Inr (- 1)))"

section \<open>Windowed extraction\<close>

record smart_state =
  st_startPos :: int
  st_sentences :: "rune list list"
  st_remaining :: "rune list"

datatype 'a loop = Break 'a | Next 'a

function skipSpaces :: "rune list \<Rightarrow> int \<Rightarrow> panic + int" where
  \<comment> \<open>the inner loop that skips leading blanks, tabs and newlines\<close>
  "skipSpaces text startPos =
     (if startPos < int (length text) then
        (case rune_at text startPos of
           Inl e \<Rightarrow> Inl e
         | Inr c \<Rightarrow> if c = 32 \<or> c = 9 \<or> c = 10 then skipSpaces text (startPos + 1)
                    else Inr startPos)
      else Inr startPos)"
  by pat_completeness auto
termination
  by (relation "measure (\<lambda>(text, startPos). nat (int (length text) - startPos))") auto

definition segment_accepted :: "rune list \<Rightarrow> int \<Rightarrow> (rune \<rightharpoonup> bool) \<Rightarrow> panic + bool" where
  \<comment> \<open>\<open>len(segment) >= minLen && separatorMap[segment[len(segment)-1]]\<close>\<close>
  "segment_accepted segment minLen separatorMap =
     (if int (length segment) \<ge> minLen then
        (case rune_at segment (int (length segment) - 1) of
           Inl e \<Rightarrow> Inl e
         | Inr l \<Rightarrow> Inr (map_get separatorMap l))
      else Inr False)"

definition add_rejected :: "rune list \<Rightarrow> rune list \<Rightarrow> rune list" where
  \<comment> \<open>the \<open>else\<close> branch: \<open>remaining\<close> after a segment that was not accepted\<close>
  "add_rejected remaining segment =
     (if length segment > 0 then
        (if length remaining > 0 then remaining @ [32] else remaining) @ segment
      else remaining)"

definition smart_step ::
  "rune list \<Rightarrow> int \<Rightarrow> int \<Rightarrow> (rune \<rightharpoonup> bool) \<Rightarrow> smart_state \<Rightarrow> panic + smart_state loop" where
  \<comment> \<open>one pass through the body of the outer loop, entered with \<open>startPos < len(currentRunes)\<close>\<close>
  "smart_step text minLen maxLen separatorMap st =
     (case skipSpaces text (st_startPos st) of
        Inl e \<Rightarrow> Inl e
      | Inr sp \<Rightarrow>
          if sp \<ge> int (length text) then Inr (Break (st\<lparr>st_startPos := sp\<rparr>))
          else
           (case findNextSplitPoint text sp maxLen separatorMap of
              Inl e \<Rightarrow> Inl e
            | Inr splitPos \<Rightarrow>
              if splitPos = - 1 then
                (case slice text sp (int (length text)) of
                   Inl e \<Rightarrow> Inl e
                 | Inr tail \<Rightarrow>
                     (case trimSpaceRunes tail of
                        Inl e \<Rightarrow> Inl e
                      | Inr segment \<Rightarrow>
                          if length segment > 0
                          then Inr (Break (st\<lparr>st_startPos := sp, st_remaining := segment\<rparr>))
                          else Inr (Break (st\<lparr>st_startPos := sp\<rparr>))))
              else
                (case slice text sp (splitPos + 1) of
                   Inl e \<Rightarrow> Inl e
                 | Inr cand \<Rightarrow>
                     (case trimSpaceRunes cand of
                        Inl e \<Rightarrow> Inl e
                      | Inr segment \<Rightarrow>
                          (case segment_accepted segment minLen separatorMap of
                             Inl e \<Rightarrow> Inl e
                           | Inr True \<Rightarrow>
                               Inr (Next (st\<lparr>st_startPos := splitPos + 1,
                                             st_sentences := st_sentences st @ [segment]\<rparr>))
                           | Inr False \<Rightarrow>
                               Inr (Next (st\<lparr>st_startPos := splitPos + 1,
                                             st_remaining :=
                                               add_rejected (st_remaining st) segment\<rparr>)))))))"

partial_function (option) smart_loop ::
  "rune list \<Rightarrow> int \<Rightarrow> int \<Rightarrow> (rune \<rightharpoonup> bool) \<Rightarrow> smart_state \<Rightarrow> (panic + smart_state) option" where
  \<comment> \<open>\<open>for startPos < len(currentRunes) { ... }\<close>; \<open>None\<close> when the loop never ends\<close>
  "smart_loop text minLen maxLen separatorMap st =
     (if st_startPos st < int (length text) then
        (case smart_step text minLen maxLen separatorMap st of
           Inl e \<Rightarrow> Some (Inl e)
         | Inr (Break st') \<Rightarrow> Some (Inr st')
         | Inr (Next st') \<Rightarrow> smart_loop text minLen maxLen separatorMap st')
      else Some (Inr st))"

declare smart_loop.simps [code]

definition ExtractSmartSentences ::
  "rune list \<Rightarrow> int \<Rightarrow> int \<Rightarrow> bool \<Rightarrow> (panic + rune list list \<times> rune list) option" where
  \<comment> \<open>\<open>builder.Grow(maxLen * 2)\<close> panics on a negative count; the product wraps at 64 bits\<close>
  "ExtractSmartSentences text minLen maxLen isFirst =
     (let separatorMap = (if isFirst then firstPunctuation else punctuationMap) in
      if wrap64 (maxLen * 2) < 0 then Some (Inl NegativeGrowCount)
      else
        (case smart_loop text minLen maxLen separatorMap
                \<lparr>st_startPos = 0, st_sentences = [], st_remaining = []\<rparr> of
           None \<Rightarrow> None
         | Some (Inl e) \<Rightarrow> Some (Inl e)
         | Some (Inr st) \<Rightarrow> Some (Inr (st_sentences st, st_remaining st))))"

section \<open>Notions used in the statements\<close>

definition is_ws :: "rune \<Rightarrow> bool" where
  \<comment> \<open>blank, tab or newline: what \<open>trimSpaceRunes\<close> and the outer loop skip\<close>
  "is_ws c \<longleftrightarrow> c = 32 \<or> c = 9 \<or> c = 10"

definition is_blank :: "rune \<Rightarrow> bool" where
  "is_blank c \<longleftrightarrow> c = 32 \<or> c = 9"

definition is_digit :: "rune \<Rightarrow> bool" where
  "is_digit c \<longleftrightarrow> 48 \<le> c \<and> c \<le> 57"

definition trimmed :: "rune list \<Rightarrow> rune list" where
  \<comment> \<open>a list without its leading and trailing blanks, tabs and newlines\<close>
  "trimmed xs = rev (dropWhile is_ws (rev (dropWhile is_ws xs)))"

definition next_nonblank :: "rune list \<Rightarrow> int \<Rightarrow> int \<Rightarrow> int" where
  \<comment> \<open>the first position from \<open>j\<close> on, below \<open>endPos\<close>, that holds neither a blank nor a
      tab; \<open>endPos\<close> when there is none\<close>
  "next_nonblank xs endPos j =
     (case find (\<lambda>k. \<not> is_blank (xs ! nat k)) [j..endPos - 1] of
        Some k \<Rightarrow> k
      | None \<Rightarrow> max j endPos)"

definition forced_newline :: "rune list \<Rightarrow> int \<Rightarrow> int \<Rightarrow> bool" where
  \<comment> \<open>a newline at \<open>i\<close> after which, blanks and tabs skipped, a digit stands more than two
      positions before the end of the window\<close>
  "forced_newline xs endPos i \<longleftrightarrow>
     xs ! nat i = 10 \<and>
     (let np = next_nonblank xs endPos (i + 1) in np < endPos - 2 \<and> is_digit (xs ! nat np))"

definition window_split :: "rune list \<Rightarrow> int \<Rightarrow> (rune \<rightharpoonup> bool) \<Rightarrow> int \<Rightarrow> bool" where
  \<comment> \<open>position \<open>i\<close> is a split point of the window that ends at \<open>endPos\<close>\<close>
  "window_split xs endPos separatorMap i \<longleftrightarrow>
     (if xs ! nat i = 10 then forced_newline xs endPos i
      else map_get separatorMap (xs ! nat i))"

definition is_boundary :: "(rune \<rightharpoonup> bool) \<Rightarrow> rune \<Rightarrow> bool" where
  "is_boundary separatorMap c \<longleftrightarrow> c = 10 \<or> map_get separatorMap c"

definition scan_result :: "rune list \<Rightarrow> int \<Rightarrow> int \<Rightarrow> (rune \<rightharpoonup> bool) \<Rightarrow> int" where
  \<comment> \<open>the first split point of the window; failing that the first newline or separator
      from the end of the window on; failing that \<open>-1\<close>\<close>
  "scan_result xs startPos maxLen separatorMap =
     (let endPos = min (startPos + maxLen) (int (length xs)) in
      case find (window_split xs endPos separatorMap) [startPos..endPos - 1] of
        Some i \<Rightarrow> i
      | None \<Rightarrow>
          (case find (\<lambda>k. is_boundary separatorMap (xs ! nat k)) [endPos..int (length xs) - 1] of
             Some i \<Rightarrow> i
           | None \<Rightarrow> - 1))"





definition first_nonws :: "rune list \<Rightarrow> int \<Rightarrow> int" where
  \<comment> \<open>the first position from \<open>pos\<close> on that holds no blank, tab or newline; the length of
      the text when there is none\<close>
  "first_nonws xs pos =
     (case find (\<lambda>k. \<not> is_ws (xs ! nat k)) [pos..int (length xs) - 1] of
        Some k \<Rightarrow> k
      | None \<Rightarrow> max pos (int (length xs)))"

definition step_of ::
  "rune list \<Rightarrow> int \<Rightarrow> int \<Rightarrow> (rune \<rightharpoonup> bool) \<Rightarrow> smart_state \<Rightarrow> smart_state loop" where
  \<comment> \<open>what one pass of the outer loop does when nothing panics\<close>
  "step_of xs minLen maxLen separatorMap st =
     (let sp = first_nonws xs (st_startPos st) in
      if sp \<ge> int (length xs) then Break (st\<lparr>st_startPos := sp\<rparr>)
      else
        (let p = scan_result xs sp maxLen separatorMap in
         if p = - 1
         then Break (st\<lparr>st_startPos := sp, st_remaining := trimmed (drop (nat sp) xs)\<rparr>)
         else
           (let seg = trimmed (take (nat (p + 1 - sp)) (drop (nat sp) xs)) in
            if int (length seg) \<ge> minLen \<and> map_get separatorMap (last seg)
            then Next (st\<lparr>st_startPos := p + 1, st_sentences := st_sentences st @ [seg]\<rparr>)
            else Next (st\<lparr>st_startPos := p + 1,
                          st_remaining := add_rejected (st_remaining st) seg\<rparr>))))"

declare skipBlanksBack.simps [simp del] countDigitsBack.simps [simp del]
  trimFront.simps [simp del] trimBack.simps [simp del]
  findLastPunctuation_from.simps [simp del] skipBlanksFwd.simps [simp del]
  windowScan.simps [simp del] fallbackScan.simps [simp del] skipSpaces.simps [simp del]

section \<open>The punctuation classes\<close>

lemma map_get_punctuationMap:
  "map_get punctuationMap r \<longleftrightarrow>
     r \<in> {46, 12290, 63, 65311, 33, 65281, 59, 65307, 58, 65306, 10}"
  by (simp add: map_get_def punctuationMap_def)

lemma map_get_firstPunctuation:
  "map_get firstPunctuation r \<longleftrightarrow>
     r \<in> {44, 65292, 46, 12290, 63, 65311, 33, 65281, 59, 65307, 58, 65306, 10}"
  by (simp add: map_get_def firstPunctuation_def)

lemma IsSentenceEndPunctuation_iff:
  "IsSentenceEndPunctuation r \<longleftrightarrow> r \<in> {46, 12290, 63, 65311, 33, 65281, 10}"
  by (auto simp add: IsSentenceEndPunctuation_def sentenceEndPunctuation_def)

lemma IsSentencePausePunctuation_iff:
  "IsSentencePausePunctuation r \<longleftrightarrow> r \<in> {44, 65292, 59, 65307, 58, 65306}"
  by (auto simp add: IsSentencePausePunctuation_def sentencePausePunctuation_def)

text \<open>
  C6, as stated: the terminal classification \<open>IsSentenceEndPunctuation\<close> holds for the
  semicolon and the colon, as the strict separator set does. It does not: the semicolon
  (code point 59) is in \<open>punctuationMap\<close> and is not a sentence-end mark.
\<close>

theorem C6_terminal_lacks_semicolon:
  "\<not> IsSentenceEndPunctuation 59 \<and> map_get punctuationMap 59"
  by (simp add: IsSentenceEndPunctuation_iff map_get_punctuationMap)

text \<open>
  C6, amended: the strict separator set \<open>punctuationMap\<close> holds exactly for the ASCII and
  full-width period, question mark, exclamation mark, semicolon and colon, and the newline;
  \<open>IsSentenceEndPunctuation\<close> holds exactly for the ASCII and full-width period, exclamation
  mark and question mark, and the newline; \<open>IsSentencePausePunctuation\<close> holds exactly for
  the ASCII and full-width comma, semicolon and colon; the permissive set
  \<open>firstPunctuation\<close> is the strict set plus the two commas.
\<close>

theorem C6_punctuation_sets:
  "(map_get punctuationMap r \<longleftrightarrow>
      r \<in> {46, 12290, 63, 65311, 33, 65281, 59, 65307, 58, 65306, 10}) \<and>
   (IsSentenceEndPunctuation r \<longleftrightarrow> r \<in> {46, 12290, 33, 65281, 63, 65311, 10}) \<and>
   (IsSentencePausePunctuation r \<longleftrightarrow> r \<in> {44, 65292, 59, 65307, 58, 65306}) \<and>
   (map_get firstPunctuation r \<longleftrightarrow> map_get punctuationMap r \<or> r = 44 \<or> r = 65292)"
  unfolding map_get_punctuationMap map_get_firstPunctuation
    IsSentenceEndPunctuation_iff IsSentencePausePunctuation_iff
  by auto

section \<open>Runs of the windowed extraction\<close>

text \<open>
  C7: \<open>ExtractSmartSentences\<close> uses the comma-permissive set exactly when \<open>isFirst\<close> is
  true: on \<open>"Hi, how are you?"\<close> with \<open>minLen = 1\<close> and \<open>maxLen = 50\<close> the first-pass call
  splits at the comma and the other call does not.
\<close>

theorem C7_first_pass_splits_at_comma:
  "ExtractSmartSentences (runes ''Hi, how are you?'') 1 50 True =
     Some (Inr ([runes ''Hi,'', runes ''how are you?''], [])) \<and>
   ExtractSmartSentences (runes ''Hi, how are you?'') 1 50 False =
     Some (Inr ([runes ''Hi, how are you?''], []))"
  by code_simp

text \<open>
  C2, at the failing input: in \<open>"1. First item\n2. Second item"\<close> the period at index 1 is
  an ordinal marker for \<open>isNumberPrefix\<close>, yet \<open>findNextSplitPoint\<close> returns it as the split
  point and \<open>ExtractSmartSentences\<close> emits \<open>"1."\<close> and \<open>"2."\<close> as sentences. The backward scan
  \<open>findLastPunctuation\<close> does skip such a period: on \<open>"Intro 1."\<close> it finds no boundary where
  the forward scan returns index 7.
\<close>

theorem C2_forward_scan_splits_at_ordinal_period:
  "isNumberPrefix (runes ''1. First item'' @ [10] @ runes ''2. Second item'') 1 = Inr True \<and>
   findNextSplitPoint (runes ''1. First item'' @ [10] @ runes ''2. Second item'') 0 200
     punctuationMap = Inr 1 \<and>
   ExtractSmartSentences (runes ''1. First item'' @ [10] @ runes ''2. Second item'') 1 200 False =
     Some (Inr ([runes ''1.'', runes ''2.''], runes ''Second item'')) \<and>
   findLastPunctuation (runes ''Intro 1.'') punctuationMap = Inr (- 1) \<and>
   findNextSplitPoint (runes ''Intro 1.'') 0 200 punctuationMap = Inr 7"
  by code_simp

text \<open>
  C3, at the failing input: with \<open>minLen = 5\<close> the segment \<open>"Hi."\<close> of \<open>"Hi. there"\<close> is
  rejected and stored in \<open>remaining\<close>; the next pass finds no split point and assigns the
  trailing text to \<open>remaining\<close>, so the rejected segment is in neither result.
\<close>

theorem C3_rejected_segment_overwritten:
  "smart_step (runes ''Hi. there'') 5 50 punctuationMap
     \<lparr>st_startPos = 0, st_sentences = [], st_remaining = []\<rparr> =
     Inr (Next \<lparr>st_startPos = 3, st_sentences = [], st_remaining = runes ''Hi.''\<rparr>) \<and>
   ExtractSmartSentences (runes ''Hi. there'') 5 50 False = Some (Inr ([], runes ''there''))"
  by code_simp

text \<open>
  C9, at the failing input: with \<open>maxLen = 2 ^ 62\<close> the growth hint \<open>maxLen * 2\<close> wraps to a
  negative count and the call panics before it reads the text.
\<close>

theorem C9_growth_hint_overflow_panics:
  "ExtractSmartSentences (runes ''a'') 1 (2 ^ 62) False = Some (Inl NegativeGrowCount)"
  by code_simp

section \<open>Eager extraction: the sentences and the remainder\<close>










section \<open>What the scanning loops compute\<close>

lemma rune_at_Inr: "0 \<le> i \<Longrightarrow> i < int (length xs) \<Longrightarrow> rune_at xs i = Inr (xs ! nat i)"
  by (simp add: rune_at_def)

lemma upto_first: "i < j \<Longrightarrow> [i..j - 1] = i # [i + 1..j - 1]"
  by (simp add: upto_rec1)

lemma upto_none: "\<not> i < j \<Longrightarrow> [i..j - 1] = []"
  by simp

lemma skipBlanksFwd_eq:
  "0 \<le> np \<Longrightarrow> e \<le> int (length xs) \<Longrightarrow> skipBlanksFwd xs e np = Inr (next_nonblank xs e np)"
proof (induction xs e np rule: skipBlanksFwd.induct)
  case (1 xs e np)
  show ?case
  proof (cases "np < e")
    case False
    then have "skipBlanksFwd xs e np = Inr np" by (subst skipBlanksFwd.simps) simp
    moreover have "next_nonblank xs e np = np" using False by (simp add: next_nonblank_def)
    ultimately show ?thesis by simp
  next
    case True
    have r: "rune_at xs np = Inr (xs ! nat np)" using "1.prems" True by (simp add: rune_at_Inr)
    show ?thesis
    proof (cases "is_blank (xs ! nat np)")
      case False
      then have "skipBlanksFwd xs e np = Inr np"
        by (subst skipBlanksFwd.simps) (simp add: True r is_blank_def)
      moreover have "next_nonblank xs e np = np"
        using False True by (simp add: next_nonblank_def upto_first)
      ultimately show ?thesis by simp
    next
      case b: True
      then have c: "xs ! nat np = 32 \<or> xs ! nat np = 9" by (simp add: is_blank_def)
      have "skipBlanksFwd xs e np = skipBlanksFwd xs e (np + 1)"
        by (subst skipBlanksFwd.simps) (use True r c in auto)
      also have "\<dots> = Inr (next_nonblank xs e (np + 1))"
        using "1.IH"[OF True r c] "1.prems" by simp
      also have "next_nonblank xs e (np + 1) = next_nonblank xs e np"
        using b True by (simp add: next_nonblank_def upto_first max_def split: option.splits)
      finally show ?thesis .
    qed
  qed
qed

lemma next_nonblank_bounds:
  "j \<le> e \<Longrightarrow> j \<le> next_nonblank xs e j \<and> next_nonblank xs e j \<le> e"
  by (auto simp: next_nonblank_def find_Some_iff split: option.splits)

lemma windowScan_eq:
  "0 \<le> i \<Longrightarrow> e \<le> int (length xs) \<Longrightarrow>
     windowScan xs e sep i = Inr (find (window_split xs e sep) [i..e - 1])"
proof (induction xs e sep i rule: windowScan.induct)
  case (1 xs e sep i)
  show ?case
  proof (cases "i < e")
    case False
    then show ?thesis by (subst windowScan.simps) simp
  next
    case True
    have r: "rune_at xs i = Inr (xs ! nat i)" using "1.prems" True by (simp add: rune_at_Inr)
    have sk: "skipBlanksFwd xs e (i + 1) = Inr (next_nonblank xs e (i + 1))"
      using "1.prems" by (simp add: skipBlanksFwd_eq)
    let ?np = "next_nonblank xs e (i + 1)"
    have npb: "i + 1 \<le> ?np \<and> ?np \<le> e" using True next_nonblank_bounds[of "i + 1" e xs] by simp
    show ?thesis
    proof (cases "window_split xs e sep i")
      case w: True
      have "windowScan xs e sep i = Inr (Some i)"
      proof (cases "xs ! nat i = 10")
        case nl: True
        with w have f: "?np < e - 2" "is_digit (xs ! nat ?np)"
          by (simp_all add: window_split_def forced_newline_def Let_def)
        have rn: "rune_at xs ?np = Inr (xs ! nat ?np)"
          using f(1) npb "1.prems" by (simp add: rune_at_Inr)
        show ?thesis
          by (subst windowScan.simps) (use True r nl sk f rn in \<open>simp add: is_digit_def\<close>)
      next
        case nnl: False
        with w have "map_get sep (xs ! nat i)" by (simp add: window_split_def)
        then show ?thesis by (subst windowScan.simps) (use True r nnl in simp)
      qed
      moreover have "find (window_split xs e sep) [i..e - 1] = Some i"
        using w True by (simp add: upto_first)
      ultimately show ?thesis by simp
    next
      case nw: False
      have fr: "find (window_split xs e sep) [i..e - 1] = find (window_split xs e sep) [i + 1..e - 1]"
        using nw True by (simp add: upto_first)
      have "windowScan xs e sep i = windowScan xs e sep (i + 1)"
      proof (cases "xs ! nat i = 10")
        case nl: True
        show ?thesis
        proof (cases "?np < e - 2")
          case lt: True
          have rn: "rune_at xs ?np = Inr (xs ! nat ?np)"
            using lt npb "1.prems" by (simp add: rune_at_Inr)
          from nw nl lt have "\<not> is_digit (xs ! nat ?np)"
            by (simp add: window_split_def forced_newline_def Let_def)
          then show ?thesis
            by (subst windowScan.simps) (use True r nl sk lt rn in \<open>auto simp add: is_digit_def\<close>)
        next
          case False
          then show ?thesis by (subst windowScan.simps) (use True r nl sk in simp)
        qed
      next
        case nnl: False
        with nw have "\<not> map_get sep (xs ! nat i)" by (simp add: window_split_def)
        then show ?thesis by (subst windowScan.simps) (use True r nnl in simp)
      qed
      moreover have "windowScan xs e sep (i + 1) = Inr (find (window_split xs e sep) [i + 1..e - 1])"
      proof (cases "xs ! nat i = 10")
        case nl: True
        show ?thesis
        proof (cases "?np < e - 2")
          case lt: True
          have rn: "rune_at xs ?np = Inr (xs ! nat ?np)"
            using lt npb "1.prems" by (simp add: rune_at_Inr)
          from nw nl lt have nd: "\<not> (48 \<le> xs ! nat ?np \<and> xs ! nat ?np \<le> 57)"
            by (simp add: window_split_def forced_newline_def Let_def is_digit_def)
          show ?thesis using "1.IH"(1)[OF True r nl sk lt rn nd] "1.prems" by simp
        next
          case nlt: False
          show ?thesis using "1.IH"(2)[OF True r nl sk nlt] "1.prems" by simp
        qed
      next
        case nnl: False
        with nw have nm: "\<not> map_get sep (xs ! nat i)" by (simp add: window_split_def)
        show ?thesis using "1.IH"(3)[OF True r nnl nm] "1.prems" by simp
      qed
      ultimately show ?thesis using fr by simp
    qed
  qed
qed

lemma fallbackScan_eq:
  "0 \<le> i \<Longrightarrow>
     fallbackScan xs sep i =
       Inr (case find (\<lambda>k. is_boundary sep (xs ! nat k)) [i..int (length xs) - 1] of
              Some k \<Rightarrow> k | None \<Rightarrow> - 1)"
proof (induction xs sep i rule: fallbackScan.induct)
  case (1 xs sep i)
  show ?case
  proof (cases "i < int (length xs)")
    case False
    then show ?thesis by (subst fallbackScan.simps) simp
  next
    case True
    have r: "rune_at xs i = Inr (xs ! nat i)" using "1.prems" True by (simp add: rune_at_Inr)
    show ?thesis
    proof (cases "is_boundary sep (xs ! nat i)")
      case b: True
      then have "fallbackScan xs sep i = Inr i"
        by (subst fallbackScan.simps) (use True r in \<open>simp add: is_boundary_def\<close>)
      then show ?thesis using b True by (simp add: upto_first)
    next
      case nb: False
      then have c: "\<not> (xs ! nat i = 10 \<or> map_get sep (xs ! nat i))" by (simp add: is_boundary_def)
      have "fallbackScan xs sep i = fallbackScan xs sep (i + 1)"
        by (subst fallbackScan.simps) (use True r c in simp)
      then show ?thesis using "1.IH"[OF True r c] "1.prems" nb True by (simp add: upto_first)
    qed
  qed
qed

lemma wrap64_id: "- (2 ^ 63) \<le> x \<Longrightarrow> x < 2 ^ 63 \<Longrightarrow> wrap64 x = x"
  by (simp add: wrap64_def)

lemma window_end_eq:
  "0 \<le> s \<Longrightarrow> 0 \<le> m \<Longrightarrow> s + m < 2 ^ 63 \<Longrightarrow> window_end xs s m = min (s + m) (int (length xs))"
  by (simp add: window_end_def wrap64_id Let_def min_def)

lemma findNextSplitPoint_eq:
  assumes "0 \<le> s" "0 \<le> m" "s + m < 2 ^ 63"
  shows "findNextSplitPoint xs s m sep = Inr (scan_result xs s m sep)"
proof -
  let ?e = "min (s + m) (int (length xs))"
  have we: "window_end xs s m = ?e" using assms by (rule window_end_eq)
  have e0: "0 \<le> ?e" "?e \<le> int (length xs)" using assms by auto
  have ws: "windowScan xs ?e sep s = Inr (find (window_split xs ?e sep) [s..?e - 1])"
    using assms(1) e0(2) by (rule windowScan_eq)
  have fb: "fallbackScan xs sep ?e =
       Inr (case find (\<lambda>k. is_boundary sep (xs ! nat k)) [?e..int (length xs) - 1] of
              Some k \<Rightarrow> k | None \<Rightarrow> - 1)"
    using e0(1) by (rule fallbackScan_eq)
  show ?thesis
    unfolding findNextSplitPoint_def scan_result_def we Let_def ws
    using fb by (auto split: option.splits)
qed


lemma trimFront_spec:
  "0 \<le> s \<Longrightarrow> e < int (length xs) \<Longrightarrow>
     \<exists>s'. trimFront xs s e = Inr s' \<and> s \<le> s' \<and> (s \<le> e + 1 \<longrightarrow> s' \<le> e + 1) \<and>
          (\<forall>j. s \<le> j \<and> j < s' \<longrightarrow> is_ws (xs ! nat j)) \<and>
          (s' \<le> e \<longrightarrow> \<not> is_ws (xs ! nat s'))"
proof (induction xs s e rule: trimFront.induct)
  case (1 xs s e)
  show ?case
  proof (cases "s \<le> e")
    case False
    then have "trimFront xs s e = Inr s" by (subst trimFront.simps) simp
    with False show ?thesis by auto
  next
    case True
    have r: "rune_at xs s = Inr (xs ! nat s)" using "1.prems" True by (simp add: rune_at_Inr)
    show ?thesis
    proof (cases "is_ws (xs ! nat s)")
      case False
      then have "trimFront xs s e = Inr s"
        by (subst trimFront.simps) (simp add: True r is_ws_def)
      with False True show ?thesis by auto
    next
      case ws: True
      then have c: "xs ! nat s = 32 \<or> xs ! nat s = 9 \<or> xs ! nat s = 10" by (simp add: is_ws_def)
      have eq: "trimFront xs s e = trimFront xs (s + 1) e"
        by (subst trimFront.simps) (use True r c in auto)
      from "1.IH"[OF True r c] "1.prems" obtain s' where
        h: "trimFront xs (s + 1) e = Inr s'" "s + 1 \<le> s'" "s + 1 \<le> e + 1 \<longrightarrow> s' \<le> e + 1"
           "\<forall>j. s + 1 \<le> j \<and> j < s' \<longrightarrow> is_ws (xs ! nat j)"
           "s' \<le> e \<longrightarrow> \<not> is_ws (xs ! nat s')"
        by auto
      have "\<forall>j. s \<le> j \<and> j < s' \<longrightarrow> is_ws (xs ! nat j)"
      proof (intro allI impI)
        fix j assume "s \<le> j \<and> j < s'"
        then have "j = s \<or> (s + 1 \<le> j \<and> j < s')" by auto
        then show "is_ws (xs ! nat j)" using ws h(4) by auto
      qed
      with h eq True show ?thesis by auto
    qed
  qed
qed

lemma trimBack_spec:
  "0 \<le> s \<Longrightarrow> e < int (length xs) \<Longrightarrow>
     \<exists>e'. trimBack xs s e = Inr e' \<and> e' \<le> e \<and> (s - 1 \<le> e \<longrightarrow> s - 1 \<le> e') \<and>
          (\<forall>j. e' < j \<and> j \<le> e \<longrightarrow> is_ws (xs ! nat j)) \<and>
          (s \<le> e' \<longrightarrow> \<not> is_ws (xs ! nat e'))"
proof (induction xs s e rule: trimBack.induct)
  case (1 xs s e)
  show ?case
  proof (cases "s \<le> e")
    case False
    then have "trimBack xs s e = Inr e" by (subst trimBack.simps) simp
    with False show ?thesis by auto
  next
    case True
    have r: "rune_at xs e = Inr (xs ! nat e)" using "1.prems" True by (simp add: rune_at_Inr)
    show ?thesis
    proof (cases "is_ws (xs ! nat e)")
      case False
      then have "trimBack xs s e = Inr e"
        by (subst trimBack.simps) (simp add: True r is_ws_def)
      with False True show ?thesis by auto
    next
      case ws: True
      then have c: "xs ! nat e = 32 \<or> xs ! nat e = 9 \<or> xs ! nat e = 10" by (simp add: is_ws_def)
      have eq: "trimBack xs s e = trimBack xs s (e - 1)"
        by (subst trimBack.simps) (use True r c in auto)
      from "1.IH"[OF True r c] "1.prems" obtain e' where
        h: "trimBack xs s (e - 1) = Inr e'" "e' \<le> e - 1" "s - 1 \<le> e - 1 \<longrightarrow> s - 1 \<le> e'"
           "\<forall>j. e' < j \<and> j \<le> e - 1 \<longrightarrow> is_ws (xs ! nat j)"
           "s \<le> e' \<longrightarrow> \<not> is_ws (xs ! nat e')"
        by auto
      have "\<forall>j. e' < j \<and> j \<le> e \<longrightarrow> is_ws (xs ! nat j)"
      proof (intro allI impI)
        fix j assume "e' < j \<and> j \<le> e"
        then have "j = e \<or> (e' < j \<and> j \<le> e - 1)" by auto
        then show "is_ws (xs ! nat j)" using ws h(4) by auto
      qed
      with h eq True show ?thesis by auto
    qed
  qed
qed

lemma trimmed_all_ws:
  assumes "\<forall>x\<in>set xs. is_ws x"
  shows "trimmed xs = []"
proof -
  have d: "dropWhile is_ws xs = []" using assms by (induction xs) auto
  show ?thesis unfolding trimmed_def d by simp
qed

lemma trimmed_sandwich:
  assumes a: "\<forall>x\<in>set a. is_ws x" and b: "\<forall>x\<in>set b. is_ws x"
    and m: "m \<noteq> []" "\<not> is_ws (hd m)" "\<not> is_ws (last m)"
  shows "trimmed (a @ m @ b) = m"
proof -
  have ra: "\<And>x. x \<in> set a \<Longrightarrow> is_ws x" using a by simp
  have "dropWhile is_ws (a @ m @ b) = dropWhile is_ws (m @ b)"
    using ra by (rule dropWhile_append2)
  also have "\<dots> = m @ b" using m(1,2) by (cases m) simp_all
  finally have d1: "dropWhile is_ws (a @ m @ b) = m @ b" .
  have rb: "\<And>x. x \<in> set (rev b) \<Longrightarrow> is_ws x" using b by simp
  have "dropWhile is_ws (rev (m @ b)) = dropWhile is_ws (rev b @ rev m)" by simp
  also have "\<dots> = dropWhile is_ws (rev m)" using rb by (rule dropWhile_append2)
  also have "\<dots> = rev m"
  proof -
    have "rev m \<noteq> []" "\<not> is_ws (hd (rev m))" using m(1,3) by (simp_all add: hd_rev)
    then show ?thesis by (cases "rev m") simp_all
  qed
  finally show ?thesis by (simp add: trimmed_def d1)
qed

lemma trimSpaceRunes_eq: "trimSpaceRunes xs = Inr (trimmed xs)"
proof -
  let ?n = "int (length xs)"
  from trimFront_spec[of 0 "?n - 1" xs] obtain s' where
    f: "trimFront xs 0 (?n - 1) = Inr s'" "0 \<le> s'" "s' \<le> ?n"
       "\<forall>j. 0 \<le> j \<and> j < s' \<longrightarrow> is_ws (xs ! nat j)"
       "s' \<le> ?n - 1 \<longrightarrow> \<not> is_ws (xs ! nat s')"
    by auto
  from trimBack_spec[of s' "?n - 1" xs] f(2,3) obtain e' where
    g: "trimBack xs s' (?n - 1) = Inr e'" "e' \<le> ?n - 1" "s' - 1 \<le> e'"
       "\<forall>j. e' < j \<and> j \<le> ?n - 1 \<longrightarrow> is_ws (xs ! nat j)"
       "s' \<le> e' \<longrightarrow> \<not> is_ws (xs ! nat e')"
    by auto
  show ?thesis
  proof (cases "s' > e'")
    case True
    have "\<forall>x\<in>set xs. is_ws x"
    proof
      fix x assume "x \<in> set xs"
      then obtain k where k: "k < length xs" "x = xs ! k" by (auto simp: in_set_conv_nth)
      have "int k < s' \<or> e' < int k" using True by auto
      then have "(0 \<le> int k \<and> int k < s') \<or> (e' < int k \<and> int k \<le> ?n - 1)"
        using k(1) by auto
      then have "is_ws (xs ! nat (int k))" using f(4) g(4) by blast
      then show "is_ws x" unfolding k(2) nat_int .
    qed
    then have "trimmed xs = []" by (rule trimmed_all_ws)
    then show ?thesis using True f(1) g(1) by (simp add: trimSpaceRunes_def)
  next
    case False
    then have le: "s' \<le> e'" by simp
    define ns where "ns = nat s'"
    define ne where "ne = nat e'"
    have ns: "s' = int ns" "ns \<le> ne" "ne < length xs" "e' = int ne"
      using le f(2) g(2) by (auto simp: ns_def ne_def)
    let ?a = "take ns xs" and ?m = "take (Suc ne - ns) (drop ns xs)" and ?b = "drop (Suc ne) xs"
    have split: "xs = ?a @ ?m @ ?b"
    proof -
      have "drop ns xs = ?m @ drop (Suc ne - ns) (drop ns xs)"
        by (rule append_take_drop_id[symmetric])
      also have "drop (Suc ne - ns) (drop ns xs) = ?b" using ns(2) by simp
      finally show ?thesis by (metis append_take_drop_id)
    qed
    have aw: "\<forall>x\<in>set ?a. is_ws x"
    proof
      fix x assume "x \<in> set ?a"
      then obtain k where k: "k < length ?a" "x = ?a ! k" by (auto simp: in_set_conv_nth)
      then have "k < ns" "x = xs ! k" by auto
      then show "is_ws x" using f(4) ns(1) by (metis nat_int of_nat_0_le_iff of_nat_less_iff)
    qed
    have bw: "\<forall>x\<in>set ?b. is_ws x"
    proof
      fix x assume "x \<in> set ?b"
      then obtain k where k: "k < length ?b" "x = ?b ! k" by (auto simp: in_set_conv_nth)
      then have kk: "Suc ne + k < length xs" "x = xs ! (Suc ne + k)" by auto
      have "e' < int (Suc ne + k) \<and> int (Suc ne + k) \<le> ?n - 1" using kk(1) ns(4) by auto
      then have "is_ws (xs ! nat (int (Suc ne + k)))" using g(4) by blast
      then show "is_ws x" unfolding kk(2) nat_int .
    qed
    have mne: "?m \<noteq> []" using ns(2,3) by simp
    have hd: "hd ?m = xs ! ns" using ns(2,3) by (simp add: hd_drop_conv_nth)
    have lm: "length ?m = Suc ne - ns" using ns(2,3) by simp
    have "last ?m = ?m ! (ne - ns)" using mne lm by (simp add: last_conv_nth)
    also have "\<dots> = xs ! ne" using ns(2,3) by simp
    finally have last: "last ?m = xs ! ne" .
    have nw1: "\<not> is_ws (hd ?m)" using f(5) ns hd by auto
    have nw2: "\<not> is_ws (last ?m)" using g(5) le ns last by auto
    have "trimmed (?a @ ?m @ ?b) = ?m" using aw bw mne nw1 nw2 by (rule trimmed_sandwich)
    then have t: "trimmed xs = ?m" using split by simp
    have nn: "nat (e' + 1 - s') = Suc ne - ns" using ns by auto
    have sl: "slice xs s' (e' + 1) = Inr ?m"
      unfolding slice_def nn using ns by simp
    show ?thesis using False f(1) g(1) sl t by (simp add: trimSpaceRunes_def)
  qed
qed

section \<open>One pass of the outer loop\<close>

lemma find_SomeD: "find P xs = Some x \<Longrightarrow> x \<in> set xs \<and> P x"
  by (induction xs) (auto split: if_splits)

lemma find_upto_Some: "find P [a..b] = Some k \<Longrightarrow> a \<le> k \<and> k \<le> b \<and> P k"
  using find_SomeD[of P "[a..b]" k] by simp

lemma scan_result_bounds:
  assumes "0 \<le> s" "0 \<le> m" "s \<le> int (length xs)"
  shows "scan_result xs s m sep = - 1 \<or>
         (s \<le> scan_result xs s m sep \<and> scan_result xs s m sep < int (length xs))"
proof -
  let ?e = "min (s + m) (int (length xs))"
  have e: "s \<le> ?e" "?e \<le> int (length xs)" using assms by auto
  show ?thesis
  proof (cases "find (window_split xs ?e sep) [s..?e - 1]")
    case (Some i)
    from find_upto_Some[OF Some] e have "s \<le> i \<and> i < int (length xs)" by auto
    then show ?thesis using Some by (simp add: scan_result_def Let_def)
  next
    case None
    show ?thesis
    proof (cases "find (\<lambda>k. is_boundary sep (xs ! nat k)) [?e..int (length xs) - 1]")
      case n2: None
      then show ?thesis using None by (simp add: scan_result_def Let_def)
    next
      case (Some i)
      from find_upto_Some[OF Some] e have "s \<le> i \<and> i < int (length xs)" by auto
      then show ?thesis using None Some by (simp add: scan_result_def Let_def)
    qed
  qed
qed

lemma segment_accepted_eq:
  assumes "seg \<noteq> []"
  shows "segment_accepted seg minLen sep =
           Inr (int (length seg) \<ge> minLen \<and> map_get sep (last seg))"
proof -
  have n: "nat (int (length seg) - 1) = length seg - 1" by arith
  have "rune_at seg (int (length seg) - 1) = Inr (last seg)"
    using assms by (simp add: rune_at_def n last_conv_nth)
  then show ?thesis by (simp add: segment_accepted_def)
qed

lemma trimmed_nonempty:
  assumes "xs \<noteq> []" "\<not> is_ws (hd xs)"
  shows "trimmed xs \<noteq> []"
proof -
  have d: "dropWhile is_ws xs = xs" using assms by (cases xs) simp_all
  have "hd xs \<in> set (rev xs)" using assms(1) by simp
  then have "\<not> (\<forall>x\<in>set (rev xs). is_ws x)" using assms(2) by blast
  then have "dropWhile is_ws (rev xs) \<noteq> []" by (simp add: dropWhile_eq_Nil_conv)
  then show ?thesis unfolding trimmed_def d by simp
qed


section \<open>Termination and index bounds of the windowed extraction\<close>







section \<open>The forward windowed scan\<close>




section \<open>Invariants of the outer loop\<close>
















section \<open>Reconstruction of the text\<close>




section \<open>The outer loop as a pure step function\<close>

lemma skipSpaces_eq: "0 \<le> pos \<Longrightarrow> skipSpaces xs pos = Inr (first_nonws xs pos)"
proof (induction xs pos rule: skipSpaces.induct)
  case (1 xs pos)
  let ?n = "int (length xs)"
  show ?case
  proof (cases "pos < ?n")
    case False
    then have "skipSpaces xs pos = Inr pos" by (subst skipSpaces.simps) simp
    moreover have "first_nonws xs pos = pos" using False by (simp add: first_nonws_def)
    ultimately show ?thesis by simp
  next
    case True
    have r: "rune_at xs pos = Inr (xs ! nat pos)" using "1.prems" True by (simp add: rune_at_Inr)
    have u: "[pos..?n - 1] = pos # [pos + 1..?n - 1]" using True by (rule upto_first)
    show ?thesis
    proof (cases "is_ws (xs ! nat pos)")
      case False
      then have "skipSpaces xs pos = Inr pos"
        by (subst skipSpaces.simps) (simp add: True r is_ws_def)
      moreover have "first_nonws xs pos = pos" using False by (simp add: first_nonws_def u)
      ultimately show ?thesis by simp
    next
      case w: True
      then have c: "xs ! nat pos = 32 \<or> xs ! nat pos = 9 \<or> xs ! nat pos = 10"
        by (simp add: is_ws_def)
      have "skipSpaces xs pos = skipSpaces xs (pos + 1)"
        by (subst skipSpaces.simps) (use True r c in auto)
      also have "\<dots> = Inr (first_nonws xs (pos + 1))"
        using "1.IH"[OF True r c] "1.prems" by simp
      also have "first_nonws xs (pos + 1) = first_nonws xs pos"
        using w True by (simp add: first_nonws_def u max_def split: option.splits)
      finally show ?thesis .
    qed
  qed
qed

lemma first_nonws_props:
  assumes "pos \<le> int (length xs)"
  shows "pos \<le> first_nonws xs pos" "first_nonws xs pos \<le> int (length xs)"
    "first_nonws xs pos < int (length xs) \<Longrightarrow> \<not> is_ws (xs ! nat (first_nonws xs pos))"
proof -
  show "pos \<le> first_nonws xs pos" "first_nonws xs pos \<le> int (length xs)"
    using assms find_upto_Some[of "\<lambda>k. \<not> is_ws (xs ! nat k)" pos "int (length xs) - 1"]
    by (auto simp: first_nonws_def split: option.splits)
  show "\<not> is_ws (xs ! nat (first_nonws xs pos))" if "first_nonws xs pos < int (length xs)"
    using that assms find_upto_Some[of "\<lambda>k. \<not> is_ws (xs ! nat k)" pos "int (length xs) - 1"]
    by (auto simp: first_nonws_def split: option.splits)
qed

lemma smart_step_eq:
  assumes "0 \<le> st_startPos st" "st_startPos st \<le> int (length xs)"
    and "0 \<le> maxLen" "int (length xs) + maxLen < 2 ^ 63"
  shows "smart_step xs minLen maxLen sep st = Inr (step_of xs minLen maxLen sep st)"
proof -
  let ?n = "int (length xs)"
  let ?sp = "first_nonws xs (st_startPos st)"
  have sk: "skipSpaces xs (st_startPos st) = Inr ?sp" using assms(1) by (rule skipSpaces_eq)
  note fp = first_nonws_props[OF assms(2)]
  show ?thesis
  proof (cases "?sp \<ge> ?n")
    case True
    then show ?thesis using sk by (simp add: smart_step_def step_of_def)
  next
    case False
    then have lt: "?sp < ?n" by simp
    have nws: "\<not> is_ws (xs ! nat ?sp)" using fp(3) lt by simp
    have sp0: "0 \<le> ?sp" using assms(1) fp(1) by simp
    have fn: "findNextSplitPoint xs ?sp maxLen sep = Inr (scan_result xs ?sp maxLen sep)"
      using sp0 assms(3,4) lt by (intro findNextSplitPoint_eq) auto
    let ?p = "scan_result xs ?sp maxLen sep"
    have dn: "drop (nat ?sp) xs \<noteq> []" using lt sp0 by simp
    show ?thesis
    proof (cases "?p = - 1")
      case True
      have sl: "slice xs ?sp ?n = Inr (drop (nat ?sp) xs)"
        using sp0 lt by (simp add: slice_def)
      have hd: "hd (drop (nat ?sp) xs) = xs ! nat ?sp" using lt sp0 by (simp add: hd_drop_conv_nth)
      have tn: "trimmed (drop (nat ?sp) xs) \<noteq> []"
        using dn hd nws by (intro trimmed_nonempty) auto
      show ?thesis
        using sk lt fn True sl tn
        by (simp add: smart_step_def step_of_def trimSpaceRunes_eq Let_def)
    next
      case False
      with scan_result_bounds[of ?sp maxLen xs sep] sp0 assms(3) lt
      have pb: "?sp \<le> ?p" "?p < ?n" by auto
      let ?cand = "take (nat (?p + 1 - ?sp)) (drop (nat ?sp) xs)"
      let ?seg = "trimmed ?cand"
      have sl: "slice xs ?sp (?p + 1) = Inr ?cand"
        using sp0 pb by (simp add: slice_def)
      have cn: "?cand \<noteq> []" using dn pb by simp
      have hd: "hd ?cand = xs ! nat ?sp" using lt sp0 pb by (simp add: hd_drop_conv_nth)
      have sn: "?seg \<noteq> []" using cn hd nws by (intro trimmed_nonempty) auto
      show ?thesis
        using sk lt fn False sl
        by (simp add: smart_step_def step_of_def trimSpaceRunes_eq segment_accepted_eq[OF sn]
            bool.case_eq_if Let_def)
    qed
  qed
qed

lemma smart_loop_unfold:
  assumes "0 \<le> st_startPos st" "st_startPos st < int (length xs)"
    and "0 \<le> maxLen" "int (length xs) + maxLen < 2 ^ 63"
  shows "smart_loop xs minLen maxLen sep st =
          (case step_of xs minLen maxLen sep st of
             Break st' \<Rightarrow> Some (Inr st')
           | Next st' \<Rightarrow> smart_loop xs minLen maxLen sep st')"
proof -
  have "smart_step xs minLen maxLen sep st = Inr (step_of xs minLen maxLen sep st)"
    using assms by (intro smart_step_eq) auto
  then show ?thesis using assms(2) by (subst smart_loop.simps) simp
qed

lemma smart_loop_done:
  "st_startPos st \<ge> int (length xs) \<Longrightarrow> smart_loop xs minLen maxLen sep st = Some (Inr st)"
  by (subst smart_loop.simps) simp

lemma step_of_progress:
  assumes "0 \<le> st_startPos st" "st_startPos st < int (length xs)" "0 \<le> maxLen"
    and "step_of xs minLen maxLen sep st = Next st'"
  shows "st_startPos st < st_startPos st'" "st_startPos st' \<le> int (length xs)"
proof -
  let ?sp = "first_nonws xs (st_startPos st)"
  have le: "st_startPos st \<le> int (length xs)" using assms(2) by simp
  note fp = first_nonws_props[OF le]
  from assms(4) have lt: "?sp < int (length xs)" and ne: "scan_result xs ?sp maxLen sep \<noteq> - 1"
    and p: "st_startPos st' = scan_result xs ?sp maxLen sep + 1"
    by (auto simp: step_of_def Let_def split: if_splits)
  have sp0: "0 \<le> ?sp" using assms(1) fp(1) by simp
  from scan_result_bounds[of ?sp maxLen xs sep] sp0 assms(3) lt ne
  have "?sp \<le> scan_result xs ?sp maxLen sep" "scan_result xs ?sp maxLen sep < int (length xs)"
    by auto
  then show "st_startPos st < st_startPos st'" "st_startPos st' \<le> int (length xs)"
    using p fp(1) by auto
qed

section \<open>Two runs of the outer loop side by side\<close>

lemma find_upto_None: "find P [a..b] = None \<longleftrightarrow> (\<forall>j. a \<le> j \<and> j \<le> b \<longrightarrow> \<not> P j)"
  by (auto simp: find_None_iff)

lemma find_upto_first:
  "find P [a..b] = Some k \<longleftrightarrow> a \<le> k \<and> k \<le> b \<and> P k \<and> (\<forall>j. a \<le> j \<and> j < k \<longrightarrow> \<not> P j)"
proof (induction a b rule: upto.induct)
  case (1 a b)
  show ?case
  proof (cases "a \<le> b")
    case False
    then show ?thesis by auto
  next
    case True
    then have u: "[a..b] = a # [a + 1..b]" by (rule upto_rec1)
    show ?thesis
    proof (cases "P a")
      case Pa: True
      have "(a \<le> k \<and> k \<le> b \<and> P k \<and> (\<forall>j. a \<le> j \<and> j < k \<longrightarrow> \<not> P j)) \<longleftrightarrow> k = a"
        using Pa True by (auto simp: not_less)
      then show ?thesis using Pa by (auto simp: u)
    next
      case nPa: False
      have "(a \<le> k \<and> k \<le> b \<and> P k \<and> (\<forall>j. a \<le> j \<and> j < k \<longrightarrow> \<not> P j)) \<longleftrightarrow>
            (a + 1 \<le> k \<and> k \<le> b \<and> P k \<and> (\<forall>j. a + 1 \<le> j \<and> j < k \<longrightarrow> \<not> P j))"
      proof
        assume l: "a \<le> k \<and> k \<le> b \<and> P k \<and> (\<forall>j. a \<le> j \<and> j < k \<longrightarrow> \<not> P j)"
        then have "k \<noteq> a" using nPa by auto
        with l show "a + 1 \<le> k \<and> k \<le> b \<and> P k \<and> (\<forall>j. a + 1 \<le> j \<and> j < k \<longrightarrow> \<not> P j)"
          by auto
      next
        assume r: "a + 1 \<le> k \<and> k \<le> b \<and> P k \<and> (\<forall>j. a + 1 \<le> j \<and> j < k \<longrightarrow> \<not> P j)"
        have "\<not> P j" if "a \<le> j \<and> j < k" for j
        proof (cases "j = a")
          case True
          then show ?thesis using nPa by simp
        next
          case False
          then show ?thesis using that r by auto
        qed
        with r show "a \<le> k \<and> k \<le> b \<and> P k \<and> (\<forall>j. a \<le> j \<and> j < k \<longrightarrow> \<not> P j)" by auto
      qed
      then show ?thesis using nPa "1.IH"[OF True] by (simp add: u)
    qed
  qed
qed

lemma find_upto_shift:
  assumes "\<And>j. a \<le> j \<Longrightarrow> j \<le> b \<Longrightarrow> Q (j + n) = P j"
  shows "find Q [a + n..b + n] = map_option (\<lambda>k. k + n) (find P [a..b])"
proof (cases "find P [a..b]")
  case None
  then have "\<forall>j. a \<le> j \<and> j \<le> b \<longrightarrow> \<not> P j" by (simp add: find_upto_None)
  have "\<not> Q j" if "a + n \<le> j \<and> j \<le> b + n" for j
  proof -
    have "Q (j - n + n) = P (j - n)" using that by (intro assms) auto
    moreover have "\<not> P (j - n)" using that \<open>\<forall>j. a \<le> j \<and> j \<le> b \<longrightarrow> \<not> P j\<close> by auto
    ultimately show ?thesis by simp
  qed
  then have "find Q [a + n..b + n] = None" by (simp add: find_upto_None)
  then show ?thesis using None by simp
next
  case (Some k)
  then have k: "a \<le> k" "k \<le> b" "P k" "\<forall>j. a \<le> j \<and> j < k \<longrightarrow> \<not> P j"
    by (simp_all add: find_upto_first)
  have "Q (k + n)" using assms[OF k(1,2)] k(3) by simp
  moreover have "\<not> Q j" if "a + n \<le> j \<and> j < k + n" for j
  proof -
    have "Q (j - n + n) = P (j - n)" using that k(2) by (intro assms) auto
    moreover have "\<not> P (j - n)" using that k(4) by auto
    ultimately show ?thesis by simp
  qed
  ultimately have "find Q [a + n..b + n] = Some (k + n)"
    using k(1,2) by (simp add: find_upto_first)
  then show ?thesis using Some by simp
qed

lemma smart_loop_sim:
  assumes m: "0 \<le> maxLen" "int (length xs) + maxLen < 2 ^ 63" "int (length ys) + maxLen < 2 ^ 63"
    and pos: "\<And>s t. R s t \<Longrightarrow> 0 \<le> st_startPos t \<and>
                (st_startPos s < int (length xs) \<longleftrightarrow> st_startPos t < int (length ys))"
    and stp: "\<And>s t. R s t \<Longrightarrow> 0 \<le> st_startPos s \<Longrightarrow> st_startPos s < int (length xs) \<Longrightarrow>
                (case step_of xs minLen maxLen sep s of
                   Next s' \<Rightarrow> (\<exists>t'. step_of ys minLen maxLen sep t = Next t' \<and> R s' t')
                 | Break s' \<Rightarrow> (\<exists>t'. step_of ys minLen maxLen sep t = Break t' \<and> Q s' t'))"
    and fin: "\<And>s t. R s t \<Longrightarrow> st_startPos s \<ge> int (length xs) \<Longrightarrow> Q s t"
  shows "0 \<le> st_startPos s \<Longrightarrow> R s t \<Longrightarrow>
           \<exists>s' t'. smart_loop xs minLen maxLen sep s = Some (Inr s') \<and>
                   smart_loop ys minLen maxLen sep t = Some (Inr t') \<and> Q s' t'"
proof (induction "nat (int (length xs) - st_startPos s)" arbitrary: s t rule: less_induct)
  case less
  note p = pos[OF less.prems(2)]
  show ?case
  proof (cases "st_startPos s < int (length xs)")
    case False
    then have "smart_loop xs minLen maxLen sep s = Some (Inr s)"
      "smart_loop ys minLen maxLen sep t = Some (Inr t)"
      using p by (simp_all add: smart_loop_done)
    moreover have "Q s t" using fin[OF less.prems(2)] False by simp
    ultimately show ?thesis by simp
  next
    case True
    then have tl: "st_startPos t < int (length ys)" using p by simp
    have ux: "smart_loop xs minLen maxLen sep s =
          (case step_of xs minLen maxLen sep s of
             Break st' \<Rightarrow> Some (Inr st')
           | Next st' \<Rightarrow> smart_loop xs minLen maxLen sep st')"
      using less.prems(1) True m(1,2) by (rule smart_loop_unfold)
    have uy: "smart_loop ys minLen maxLen sep t =
          (case step_of ys minLen maxLen sep t of
             Break st' \<Rightarrow> Some (Inr st')
           | Next st' \<Rightarrow> smart_loop ys minLen maxLen sep st')"
      using p tl m(1,3) by (intro smart_loop_unfold) auto
    note st = stp[OF less.prems(2,1) True]
    show ?thesis
    proof (cases "step_of xs minLen maxLen sep s")
      case (Break s')
      with st obtain t' where "step_of ys minLen maxLen sep t = Break t'" "Q s' t'" by auto
      then show ?thesis using ux uy Break by simp
    next
      case (Next s')
      with st obtain t' where t': "step_of ys minLen maxLen sep t = Next t'" "R s' t'" by auto
      have pr: "st_startPos s < st_startPos s'" "st_startPos s' \<le> int (length xs)"
        using step_of_progress[OF less.prems(1) True m(1) Next] by auto
      have "nat (int (length xs) - st_startPos s') < nat (int (length xs) - st_startPos s)"
        using pr True by linarith
      moreover have "0 \<le> st_startPos s'" using pr less.prems(1) by simp
      ultimately obtain s'' t'' where
        "smart_loop xs minLen maxLen sep s' = Some (Inr s'')"
        "smart_loop ys minLen maxLen sep t' = Some (Inr t'')" "Q s'' t''"
        using less.hyps[of s' t'] t'(2) by blast
      then show ?thesis using ux uy Next t'(1) by simp
    qed
  qed
qed

lemma nth_shift: "0 \<le> k \<Longrightarrow> (X @ Y) ! nat (k + int (length X)) = Y ! nat k"
proof -
  assume "0 \<le> k"
  then have "nat (k + int (length X)) = length X + nat k" by (simp add: nat_add_distrib)
  then show ?thesis by (simp add: nth_append)
qed

lemma drop_shift: "0 \<le> k \<Longrightarrow> drop (nat (k + int (length X))) (X @ Y) = drop (nat k) Y"
proof -
  assume "0 \<le> k"
  then have "nat (k + int (length X)) = length X + nat k" by (simp add: nat_add_distrib)
  then show ?thesis by simp
qed

lemma first_nonws_ge: "pos \<le> first_nonws xs pos"
  using find_upto_Some[of "\<lambda>k. \<not> is_ws (xs ! nat k)" pos "int (length xs) - 1"]
  by (auto simp: first_nonws_def split: option.splits)

lemma next_nonblank_ge: "j \<le> next_nonblank xs e j"
  using find_upto_Some[of "\<lambda>k. \<not> is_blank (xs ! nat k)" j "e - 1"]
  by (auto simp: next_nonblank_def split: option.splits)

lemma first_nonws_shift:
  assumes "0 \<le> pos"
  shows "first_nonws (X @ Y) (pos + int (length X)) = first_nonws Y pos + int (length X)"
proof -
  let ?n = "int (length X)"
  have e: "int (length (X @ Y)) - 1 = (int (length Y) - 1) + ?n" by simp
  have "find (\<lambda>k. \<not> is_ws ((X @ Y) ! nat k)) [pos + ?n..(int (length Y) - 1) + ?n] =
        map_option (\<lambda>k. k + ?n) (find (\<lambda>k. \<not> is_ws (Y ! nat k)) [pos..int (length Y) - 1])"
    using assms by (intro find_upto_shift) (simp add: nth_shift)
  then show ?thesis
    unfolding first_nonws_def e by (cases "find (\<lambda>k. \<not> is_ws (Y ! nat k)) [pos..int (length Y) - 1]") auto
qed

lemma next_nonblank_shift:
  assumes "0 \<le> j"
  shows "next_nonblank (X @ Y) (e + int (length X)) (j + int (length X)) =
         next_nonblank Y e j + int (length X)"
proof -
  let ?n = "int (length X)"
  have e: "e + ?n - 1 = (e - 1) + ?n" by simp
  have "find (\<lambda>k. \<not> is_blank ((X @ Y) ! nat k)) [j + ?n..(e - 1) + ?n] =
        map_option (\<lambda>k. k + ?n) (find (\<lambda>k. \<not> is_blank (Y ! nat k)) [j..e - 1])"
    using assms by (intro find_upto_shift) (simp add: nth_shift)
  then show ?thesis
    unfolding next_nonblank_def e by (cases "find (\<lambda>k. \<not> is_blank (Y ! nat k)) [j..e - 1]") auto
qed

lemma forced_newline_shift:
  assumes "0 \<le> i"
  shows "forced_newline (X @ Y) (e + int (length X)) (i + int (length X)) = forced_newline Y e i"
proof -
  let ?n = "int (length X)"
  have i1: "i + ?n + 1 = (i + 1) + ?n" by simp
  have np: "next_nonblank (X @ Y) (e + ?n) (i + ?n + 1) = next_nonblank Y e (i + 1) + ?n"
    unfolding i1 using assms by (intro next_nonblank_shift) simp
  have ge: "0 \<le> next_nonblank Y e (i + 1)" using next_nonblank_ge[of "i + 1" Y e] assms by simp
  show ?thesis
    unfolding forced_newline_def Let_def np
    using assms ge by (simp add: nth_shift)
qed

lemma window_split_shift:
  "0 \<le> i \<Longrightarrow>
     window_split (X @ Y) (e + int (length X)) sep (i + int (length X)) = window_split Y e sep i"
  by (simp add: window_split_def forced_newline_shift nth_shift)

lemma scan_result_shift:
  assumes "0 \<le> sp" "0 \<le> m"
  shows "scan_result (X @ Y) (sp + int (length X)) m sep =
           (if scan_result Y sp m sep = - 1 then - 1
            else scan_result Y sp m sep + int (length X))"
proof -
  let ?n = "int (length X)"
  let ?e = "min (sp + m) (int (length Y))"
  have e: "min (sp + ?n + m) (int (length (X @ Y))) = ?e + ?n" by auto
  have w: "find (window_split (X @ Y) (?e + ?n) sep) [sp + ?n..(?e - 1) + ?n] =
        map_option (\<lambda>k. k + ?n) (find (window_split Y ?e sep) [sp..?e - 1])"
    using assms by (intro find_upto_shift) (simp add: window_split_shift)
  have e0: "0 \<le> ?e" using assms by simp
  have f: "find (\<lambda>k. is_boundary sep ((X @ Y) ! nat k)) [?e + ?n..(int (length Y) - 1) + ?n] =
        map_option (\<lambda>k. k + ?n) (find (\<lambda>k. is_boundary sep (Y ! nat k)) [?e..int (length Y) - 1])"
    using e0 by (intro find_upto_shift) (simp add: nth_shift)
  have a: "?e + ?n - 1 = (?e - 1) + ?n" "int (length (X @ Y)) - 1 = (int (length Y) - 1) + ?n"
    by simp_all
  show ?thesis
  proof (cases "find (window_split Y ?e sep) [sp..?e - 1]")
    case (Some i)
    then have "sp \<le> i" by (simp add: find_upto_first)
    then have "i \<noteq> - 1" using assms by auto
    then show ?thesis using Some w
      unfolding scan_result_def Let_def e a by simp
  next
    case None
    show ?thesis
    proof (cases "find (\<lambda>k. is_boundary sep (Y ! nat k)) [?e..int (length Y) - 1]")
      case n2: None
      then show ?thesis using None w f
        unfolding scan_result_def Let_def e a by simp
    next
      case (Some i)
      then have "?e \<le> i" by (simp add: find_upto_first)
      moreover note e0
      ultimately have "i \<noteq> - 1" by auto
      then show ?thesis using Some None w f
        unfolding scan_result_def Let_def e a by simp
    qed
  qed
qed

lemma step_of_shift:
  assumes "0 \<le> st_startPos t" "0 \<le> maxLen"
  shows "step_of (X @ Y) minLen maxLen sep (t\<lparr>st_startPos := st_startPos t + int (length X)\<rparr>) =
           (case step_of Y minLen maxLen sep t of
              Break u \<Rightarrow> Break (u\<lparr>st_startPos := st_startPos u + int (length X)\<rparr>)
            | Next u \<Rightarrow> Next (u\<lparr>st_startPos := st_startPos u + int (length X)\<rparr>))"
proof -
  let ?n = "int (length X)"
  let ?sp = "first_nonws Y (st_startPos t)"
  have sp0: "0 \<le> ?sp" using first_nonws_ge[of "st_startPos t" Y] assms(1) by simp
  have f: "first_nonws (X @ Y) (st_startPos t + ?n) = ?sp + ?n"
    using assms(1) by (rule first_nonws_shift)
  have sc: "scan_result (X @ Y) (?sp + ?n) maxLen sep =
           (if scan_result Y ?sp maxLen sep = - 1 then - 1
            else scan_result Y ?sp maxLen sep + ?n)"
    using sp0 assms(2) by (rule scan_result_shift)
  have d: "drop (nat (?sp + ?n)) (X @ Y) = drop (nat ?sp) Y" using sp0 by (rule drop_shift)
  have l: "(int (length (X @ Y)) \<le> ?sp + ?n) = (int (length Y) \<le> ?sp)" by auto
  show ?thesis
  proof (cases "int (length Y) \<le> ?sp")
    case True
    then show ?thesis by (simp add: step_of_def f l Let_def del: length_append drop_append)
  next
    case False
    show ?thesis
    proof (cases "scan_result Y ?sp maxLen sep = - 1")
      case True
      then show ?thesis using False
        by (simp add: step_of_def f l sc d Let_def del: length_append drop_append)
    next
      case ne: False
      have a: "scan_result Y ?sp maxLen sep + ?n + 1 - (?sp + ?n) = scan_result Y ?sp maxLen sep + 1 - ?sp"
        by simp
      have ne': "scan_result Y ?sp maxLen sep + ?n \<noteq> - 1"
        using scan_result_bounds[of ?sp maxLen Y sep] sp0 assms(2) False ne by auto
      show ?thesis using False ne ne'
        by (simp add: step_of_def f l sc d a Let_def del: length_append drop_append)
    qed
  qed
qed

lemma smart_loop_shift:
  assumes m: "0 \<le> maxLen" "int (length (X @ Y)) + maxLen < 2 ^ 63"
    and t: "0 \<le> st_startPos t"
  shows "\<exists>s' t'. smart_loop (X @ Y) minLen maxLen sep
                    (t\<lparr>st_startPos := st_startPos t + int (length X)\<rparr>) = Some (Inr s') \<and>
                 smart_loop Y minLen maxLen sep t = Some (Inr t') \<and>
                 st_sentences s' = st_sentences t' \<and> st_remaining s' = st_remaining t'"
proof -
  define R where "R = (\<lambda>(s::smart_state) (t::smart_state).
      s = t\<lparr>st_startPos := st_startPos t + int (length X)\<rparr> \<and> 0 \<le> st_startPos t)"
  define Q where "Q = (\<lambda>(s::smart_state) (t::smart_state).
      st_sentences s = st_sentences t \<and> st_remaining s = st_remaining t)"
  have m3: "int (length Y) + maxLen < 2 ^ 63" using m(2) by simp
  have pos: "0 \<le> st_startPos t \<and>
      (st_startPos s < int (length (X @ Y)) \<longleftrightarrow> st_startPos t < int (length Y))"
    if "R s t" for s t using that by (auto simp: R_def)
  have stp: "(case step_of (X @ Y) minLen maxLen sep s of
                   Next s' \<Rightarrow> (\<exists>t'. step_of Y minLen maxLen sep t = Next t' \<and> R s' t')
                 | Break s' \<Rightarrow> (\<exists>t'. step_of Y minLen maxLen sep t = Break t' \<and> Q s' t'))"
    if "R s t" "0 \<le> st_startPos s" "st_startPos s < int (length (X @ Y))" for s t
  proof -
    from that(1) have s: "s = t\<lparr>st_startPos := st_startPos t + int (length X)\<rparr>"
      and t0: "0 \<le> st_startPos t" by (auto simp: R_def)
    have tl: "st_startPos t < int (length Y)" using that(3) s by simp
    note sh = step_of_shift[OF t0 m(1), of X Y minLen sep]
    show ?thesis
    proof (cases "step_of Y minLen maxLen sep t")
      case (Break u)
      then show ?thesis using sh by (simp add: s Q_def)
    next
      case (Next u)
      have "st_startPos t < st_startPos u"
        using step_of_progress(1)[OF t0 tl m(1) Next] .
      then have "0 \<le> st_startPos u" using t0 by simp
      then show ?thesis using sh Next by (simp add: s R_def)
    qed
  qed
  have fin: "Q s t" if "R s t" "st_startPos s \<ge> int (length (X @ Y))" for s t
    using that by (auto simp: R_def Q_def)
  have R0: "R (t\<lparr>st_startPos := st_startPos t + int (length X)\<rparr>) t"
    using t by (simp add: R_def)
  have s0: "0 \<le> st_startPos (t\<lparr>st_startPos := st_startPos t + int (length X)\<rparr>)"
    using t by simp
  from smart_loop_sim[where R = R and Q = Q, OF m(1) m(2) m3 pos stp fin s0 R0]
  show ?thesis by (simp add: Q_def)
qed

lemma step_of_sents:
  "step_of xs minLen maxLen sep (t\<lparr>st_sentences := S @ st_sentences t\<rparr>) =
     (case step_of xs minLen maxLen sep t of
        Break u \<Rightarrow> Break (u\<lparr>st_sentences := S @ st_sentences u\<rparr>)
      | Next u \<Rightarrow> Next (u\<lparr>st_sentences := S @ st_sentences u\<rparr>))"
  by (simp add: step_of_def Let_def)

lemma smart_loop_sents:
  assumes m: "0 \<le> maxLen" "int (length xs) + maxLen < 2 ^ 63"
    and t: "0 \<le> st_startPos t"
  shows "\<exists>s' t'. smart_loop xs minLen maxLen sep (t\<lparr>st_sentences := S @ st_sentences t\<rparr>) =
                   Some (Inr s') \<and>
                 smart_loop xs minLen maxLen sep t = Some (Inr t') \<and>
                 st_sentences s' = S @ st_sentences t' \<and> st_remaining s' = st_remaining t'"
proof -
  define R where "R = (\<lambda>(s::smart_state) (t::smart_state).
      s = t\<lparr>st_sentences := S @ st_sentences t\<rparr> \<and> 0 \<le> st_startPos t)"
  define Q where "Q = (\<lambda>(s::smart_state) (t::smart_state).
      st_sentences s = S @ st_sentences t \<and> st_remaining s = st_remaining t)"
  have pos: "0 \<le> st_startPos t \<and>
      (st_startPos s < int (length xs) \<longleftrightarrow> st_startPos t < int (length xs))"
    if "R s t" for s t using that by (auto simp: R_def)
  have stp: "(case step_of xs minLen maxLen sep s of
                   Next s' \<Rightarrow> (\<exists>t'. step_of xs minLen maxLen sep t = Next t' \<and> R s' t')
                 | Break s' \<Rightarrow> (\<exists>t'. step_of xs minLen maxLen sep t = Break t' \<and> Q s' t'))"
    if "R s t" "0 \<le> st_startPos s" "st_startPos s < int (length xs)" for s t
  proof -
    from that(1) have s: "s = t\<lparr>st_sentences := S @ st_sentences t\<rparr>"
      and t0: "0 \<le> st_startPos t" by (auto simp: R_def)
    have tl: "st_startPos t < int (length xs)" using that(3) s by simp
    note sh = step_of_sents[where xs = xs and minLen = minLen and maxLen = maxLen and sep = sep
        and t = t and S = S]
    show ?thesis
    proof (cases "step_of xs minLen maxLen sep t")
      case (Break u)
      then show ?thesis using sh by (simp add: s Q_def)
    next
      case (Next u)
      have "st_startPos t < st_startPos u"
        using step_of_progress(1)[OF t0 tl m(1) Next] .
      then have "0 \<le> st_startPos u" using t0 by simp
      then show ?thesis using sh Next by (simp add: s R_def)
    qed
  qed
  have fin: "Q s t" if "R s t" "st_startPos s \<ge> int (length xs)" for s t
    using that by (auto simp: R_def Q_def)
  have R0: "R (t\<lparr>st_sentences := S @ st_sentences t\<rparr>) t" using t by (simp add: R_def)
  have s0: "0 \<le> st_startPos (t\<lparr>st_sentences := S @ st_sentences t\<rparr>)" using t by simp
  from smart_loop_sim[where R = R and Q = Q, OF m(1) m(2) m(2) pos stp fin s0 R0]
  show ?thesis by (simp add: Q_def)
qed

end
